theory Spec2Isabelle
  imports Main "HOL-Library.Multiset" "HOL-Library.Product_Lexorder"
begin

section \<open>Data model\<close>

text \<open>
  A row of the filtered dataset. Only the columns read by the scorer and the selector are
  kept: \<open>Name\<close>, \<open>Type 1\<close>, \<open>Type 2\<close> (absent when the CSV cell is empty, which pandas
  reads as NaN) and \<open>Total\<close>. pandas holds \<open>Total\<close> as int64; the sums taken here stay far inside that
  range for the base-stat totals of the dataset, so the model uses unbounded integers.
\<close>

record Entity =
  Name :: string
  Type1 :: string
  Type2 :: "string option"
  Total :: int

text \<open>
  The data frame handed to the selector comes out of \<open>load_data\<close>, which ends with
  \<open>reset_index(drop=True)\<close>: its row labels are \<open>0, 1, ..., n - 1\<close> in row order. A frame
  is therefore the list of its rows and a label is a position in that list.
\<close>

type_synonym DataFrame = "Entity list"

datatype error = KeyError | ValueError

text \<open>\<open>df.loc[labels]\<close>: the rows with these labels, in the order asked for; a label the
  frame does not have raises KeyError.\<close>

definition loc :: "DataFrame \<Rightarrow> nat list \<Rightarrow> error + Entity list" where
  "loc df labels =
     (if list_all (\<lambda>i. i < length df) labels then Inr (map (nth df) labels)
      else Inl KeyError)"

text \<open>\<open>remaining.drop(label)\<close> on the list of labels still in the working copy.\<close>

definition drop_label :: "nat list \<Rightarrow> nat \<Rightarrow> error + nat list" where
  "drop_label remaining label =
     (if label \<in> set remaining then Inr (filter (\<lambda>i. i \<noteq> label) remaining)
      else Inl KeyError)"

text \<open>\<open>Series.dropna()\<close> on a column with optional cells.\<close>

fun dropna :: "'a option list \<Rightarrow> 'a list" where
  "dropna [] = []"
| "dropna (None # xs) = dropna xs"
| "dropna (Some x # xs) = x # dropna xs"

section \<open>Scorer\<close>

text \<open>\<open>team_score\<close> of poke.py.\<close>

definition team_score :: "Entity list \<Rightarrow> int \<Rightarrow> int" where
  "team_score team type_bonus =
     (let stat_sum = sum_list (map Total team);
          types = set (map Type1 team) \<union> set (dropna (map Type2 team))
      in stat_sum + type_bonus * int (card types))"

text \<open>\<open>team_score\<close> of poke\_ui.py.\<close>

definition team_score_ui :: "Entity list \<Rightarrow> int \<Rightarrow> int" where
  "team_score_ui team type_bonus =
     (let base_power = sum_list (map Total team);
          unique_types = set (map Type1 team) \<union> set (dropna (map Type2 team))
      in base_power + type_bonus * int (card unique_types))"

section \<open>Greedy selector\<close>

text \<open>The running best score starts at \<open>-float("inf")\<close>, below every integer.\<close>

datatype score = NegInf | Num int

fun gt :: "int \<Rightarrow> score \<Rightarrow> bool" where
  "gt d NegInf = True"
| "gt d (Num b) = (b < d)"

text \<open>
  The inner \<open>for idx, row in remaining.iterrows()\<close> loop, the same in both files up to the
  scorer called: the state is the pair \<open>(best_idx, best_delta)\<close>.
\<close>

fun for_rows ::
  "(Entity list \<Rightarrow> int \<Rightarrow> int) \<Rightarrow> DataFrame \<Rightarrow> int \<Rightarrow> nat list \<Rightarrow> nat list \<Rightarrow>
     nat option \<times> score \<Rightarrow> error + (nat option \<times> score)" where
  "for_rows scorer df type_bonus chosen_idx [] st = Inr st"
| "for_rows scorer df type_bonus chosen_idx (idx # rest) (best_idx, best_delta) =
     (case loc df (chosen_idx @ [idx]) of
        Inl e \<Rightarrow> Inl e
      | Inr new_team \<Rightarrow>
          (let delta = scorer new_team type_bonus
           in if gt delta best_delta
              then for_rows scorer df type_bonus chosen_idx rest (Some idx, Num delta)
              else for_rows scorer df type_bonus chosen_idx rest (best_idx, best_delta)))"

text \<open>
  The \<open>while\<close> loop of poke.py. The result is \<open>chosen_idx\<close> at loop exit together with the
  content of the variable \<open>best_delta\<close> then (\<open>None\<close> when it was never bound). When the
  working copy is empty the inner loop leaves \<open>best_idx = None\<close>, and
  \<open>remaining.drop(None)\<close> raises ValueError.
\<close>

function while_cli ::
  "DataFrame \<Rightarrow> int \<Rightarrow> int \<Rightarrow> nat list \<Rightarrow> nat list \<Rightarrow> score option \<Rightarrow>
     error + (nat list \<times> score option)" where
  "while_cli df k type_bonus chosen_idx remaining last_best =
     (if int (length chosen_idx) < k then
        (case for_rows team_score df type_bonus chosen_idx remaining (None, NegInf) of
           Inl e \<Rightarrow> Inl e
         | Inr (best_idx, best_delta) \<Rightarrow>
             (case best_idx of
                None \<Rightarrow> Inl ValueError
              | Some b \<Rightarrow>
                  (case drop_label remaining b of
                     Inl e \<Rightarrow> Inl e
                   | Inr remaining' \<Rightarrow>
                       while_cli df k type_bonus (chosen_idx @ [b]) remaining'
                         (Some best_delta))))
      else Inr (chosen_idx, last_best))"
  by pat_completeness auto
termination
  by (relation "measure (\<lambda>(df, k, tb, chosen_idx, remaining, last_best). nat (k - int (length chosen_idx)))")
     auto

text \<open>The \<open>while\<close> loop of poke\_ui.py, with its two guards.\<close>

function while_ui ::
  "DataFrame \<Rightarrow> int \<Rightarrow> int \<Rightarrow> nat list \<Rightarrow> nat list \<Rightarrow> score option \<Rightarrow>
     error + (nat list \<times> score option)" where
  "while_ui df k type_bonus chosen_idx remaining last_best =
     (if int (length chosen_idx) < k \<and> remaining \<noteq> [] then
        (case for_rows team_score_ui df type_bonus chosen_idx remaining (None, NegInf) of
           Inl e \<Rightarrow> Inl e
         | Inr (best_idx, best_score) \<Rightarrow>
             (case best_idx of
                None \<Rightarrow> Inr (chosen_idx, Some best_score)
              | Some b \<Rightarrow>
                  (case drop_label remaining b of
                     Inl e \<Rightarrow> Inl e
                   | Inr remaining' \<Rightarrow>
                       while_ui df k type_bonus (chosen_idx @ [b]) remaining'
                         (Some best_score))))
      else Inr (chosen_idx, last_best))"
  by pat_completeness auto
termination
  by (relation "measure (\<lambda>(df, k, tb, chosen_idx, remaining, last_best). nat (k - int (length chosen_idx)))")
     auto

text \<open>
  The selection proper: \<open>chosen_idx = []\<close>, \<open>remaining = df.copy()\<close>, then the loop.
\<close>

definition select_cli :: "DataFrame \<Rightarrow> int \<Rightarrow> int \<Rightarrow> error + (nat list \<times> score option)" where
  "select_cli df k type_bonus = while_cli df k type_bonus [] [0..<length df] None"

definition select_ui :: "DataFrame \<Rightarrow> int \<Rightarrow> int \<Rightarrow> error + (nat list \<times> score option)" where
  "select_ui df k type_bonus = while_ui df k type_bonus [] [0..<length df] None"

text \<open>\<open>greedy_team\<close> of poke.py: the loop, then \<open>return df.loc[chosen_idx]\<close>.\<close>

definition greedy_team :: "DataFrame \<Rightarrow> int \<Rightarrow> int \<Rightarrow> error + Entity list" where
  "greedy_team df k type_bonus =
     (case select_cli df k type_bonus of
        Inl e \<Rightarrow> Inl e
      | Inr (chosen_idx, last_best) \<Rightarrow> loc df chosen_idx)"

text \<open>\<open>greedy_team\<close> of poke\_ui.py.\<close>

definition greedy_team_ui :: "DataFrame \<Rightarrow> int \<Rightarrow> int \<Rightarrow> error + Entity list" where
  "greedy_team_ui df k type_bonus =
     (case select_ui df k type_bonus of
        Inl e \<Rightarrow> Inl e
      | Inr (chosen_idx, last_best) \<Rightarrow> loc df chosen_idx)"

section \<open>Specification-side definitions\<close>

text \<open>
  The category set in the words of the specification: the union of every primary category
  and every secondary category that is present.
\<close>

definition unique_categories :: "Entity list \<Rightarrow> string set" where
  "unique_categories team = Type1 ` set team \<union> {t. Some t \<in> Type2 ` set team}"

text \<open>
  The score the loop body computes for a candidate row \<open>idx\<close>: \<open>team_score\<close> of the rows
  chosen so far followed by that row, for labels that the frame has.
\<close>

definition candidate_score :: "DataFrame \<Rightarrow> int \<Rightarrow> nat list \<Rightarrow> nat \<Rightarrow> int" where
  "candidate_score df type_bonus chosen_idx idx =
     team_score (map (nth df) (chosen_idx @ [idx])) type_bonus"

text \<open>
  The label the inner loop ends with when it starts on \<open>b\<close> and then sees \<open>rest\<close>: a
  later label replaces the running one only when it scores strictly more.
\<close>

fun first_max :: "(nat \<Rightarrow> int) \<Rightarrow> nat \<Rightarrow> nat list \<Rightarrow> nat" where
  "first_max f b [] = b"
| "first_max f b (i # rest) = (if f b < f i then first_max f i rest else first_max f b rest)"

text \<open>
  The selection as a plain recursion on the number \<open>m\<close> of picks still wanted; the loops
  of both files are shown below to compute it.
\<close>

fun picks :: "DataFrame \<Rightarrow> int \<Rightarrow> nat \<Rightarrow> nat list \<Rightarrow> nat list \<Rightarrow> nat list" where
  "picks df type_bonus 0 chosen_idx remaining = chosen_idx"
| "picks df type_bonus (Suc m) chosen_idx [] = chosen_idx"
| "picks df type_bonus (Suc m) chosen_idx (r # rs) =
     (let b = first_max (candidate_score df type_bonus chosen_idx) r rs
      in picks df type_bonus m (chosen_idx @ [b]) (filter (\<lambda>i. i \<noteq> b) (r # rs)))"

text \<open>The content of the variable holding the best score once the loop has ended on \<open>res\<close>.\<close>

definition final_best :: "DataFrame \<Rightarrow> int \<Rightarrow> nat list \<Rightarrow> score option \<Rightarrow> nat list \<Rightarrow> score option" where
  "final_best df tb chosen last_best res =
     (if res = chosen then last_best else Some (Num (team_score (map (nth df) res) tb)))"

text \<open>
  \<open>b\<close> is a best remaining label and the first such one: it is in \<open>remaining\<close>, no
  remaining label scores more, and every label enumerated before it scores strictly
  less.
\<close>

definition first_best :: "(nat \<Rightarrow> int) \<Rightarrow> nat list \<Rightarrow> nat \<Rightarrow> bool" where
  "first_best f remaining b \<longleftrightarrow>
     b \<in> set remaining \<and> (\<forall>i\<in>set remaining. f i \<le> f b) \<and>
     (\<forall>i\<in>set (takeWhile (\<lambda>i. i \<noteq> b) remaining). f i < f b)"

text \<open>
  Descending fitness, ties by position in the frame: labels ordered by the pair
  \<open>(- Total, label)\<close>, and the first \<open>m\<close> of them.
\<close>

definition fitness_key :: "DataFrame \<Rightarrow> nat \<Rightarrow> int \<times> nat" where
  "fitness_key df i = (- Total (df ! i), i)"

definition top_by_fitness :: "DataFrame \<Rightarrow> nat \<Rightarrow> nat list" where
  "top_by_fitness df m = take m (sort_key (fitness_key df) [0..<length df])"

text \<open>The three Entities of the concrete scenario of the specification.\<close>

definition pool_A :: Entity where
  "pool_A = \<lparr>Name = ''A'', Type1 = ''Fire'', Type2 = None, Total = 300\<rparr>"

definition pool_B :: Entity where
  "pool_B = \<lparr>Name = ''B'', Type1 = ''Water'', Type2 = None, Total = 250\<rparr>"

definition pool_C :: Entity where
  "pool_C = \<lparr>Name = ''C'', Type1 = ''Fire'', Type2 = Some ''Flying'', Total = 400\<rparr>"

declare while_cli.simps [simp del] while_ui.simps [simp del]

section \<open>The scorer: auxiliary facts\<close>

lemma team_score_ui_eq: "team_score_ui team type_bonus = team_score team type_bonus"
  by (simp add: team_score_ui_def team_score_def)

lemma set_dropna: "set (dropna xs) = {x. Some x \<in> set xs}"
  by (induction xs rule: dropna.induct) auto

lemma types_unique_categories:
  "set (map Type1 team) \<union> set (dropna (map Type2 team)) = unique_categories team"
  by (simp add: set_dropna unique_categories_def)

lemma team_score_spec:
  "team_score team type_bonus =
     sum_list (map Total team) + type_bonus * int (card (unique_categories team))"
  unfolding team_score_def Let_def types_unique_categories ..



section \<open>The inner loop picks the first best label\<close>

lemma team_score_ui_fun_eq: "team_score_ui = team_score"
  by (rule ext, rule ext) (rule team_score_ui_eq)

lemma loc_in_range: "\<forall>i\<in>set labels. i < length df \<Longrightarrow> loc df labels = Inr (map (nth df) labels)"
  by (simp add: loc_def list_all_iff)

lemma candidate_score_loc:
  "loc df (chosen_idx @ [idx]) = Inr team \<Longrightarrow>
     candidate_score df type_bonus chosen_idx idx = team_score team type_bonus"
  by (auto simp: loc_def candidate_score_def split: if_splits)

lemma for_rows_running:
  assumes "\<forall>i\<in>set chosen. i < length df" and "\<forall>i\<in>set rest. i < length df"
  shows "for_rows team_score df tb chosen rest (Some b, Num (candidate_score df tb chosen b)) =
           Inr (Some (first_max (candidate_score df tb chosen) b rest),
                Num (candidate_score df tb chosen (first_max (candidate_score df tb chosen) b rest)))"
  using assms(2)
proof (induction rest arbitrary: b)
  case Nil
  then show ?case by simp
next
  case (Cons i rest)
  have l: "loc df (chosen @ [i]) = Inr (map (nth df) (chosen @ [i]))"
    using assms(1) Cons.prems by (intro loc_in_range) auto
  have s: "team_score (map (nth df) (chosen @ [i])) tb = candidate_score df tb chosen i"
    by (simp add: candidate_score_def)
  from Cons.prems have r: "\<forall>i\<in>set rest. i < length df" by simp
  show ?case
    by (simp only: for_rows.simps l sum.case Let_def s gt.simps Cons.IH [OF r] first_max.simps if_distrib [of "\<lambda>x. Inr x"] split: if_split) simp
qed

lemma for_rows_start:
  assumes "\<forall>i\<in>set chosen. i < length df" and "\<forall>i\<in>set (r # rs). i < length df"
  shows "for_rows team_score df tb chosen (r # rs) (None, NegInf) =
           Inr (Some (first_max (candidate_score df tb chosen) r rs),
                Num (candidate_score df tb chosen (first_max (candidate_score df tb chosen) r rs)))"
proof -
  have l: "loc df (chosen @ [r]) = Inr (map (nth df) (chosen @ [r]))"
    using assms by (intro loc_in_range) auto
  have s: "team_score (map (nth df) (chosen @ [r])) tb = candidate_score df tb chosen r"
    by (simp add: candidate_score_def)
  from assms(2) have rs: "\<forall>i\<in>set rs. i < length df" by simp
  show ?thesis
    by (simp only: for_rows.simps l sum.case Let_def s gt.simps if_True
          for_rows_running [OF assms(1) rs])
qed

lemma first_max_in: "first_max f b rest \<in> set (b # rest)"
  by (induction rest arbitrary: b) auto

lemma first_max_ge_start: "f b \<le> f (first_max f b rest)"
proof (induction rest arbitrary: b)
  case Nil
  show ?case by simp
next
  case (Cons i rest)
  show ?case
  proof (cases "f b < f i")
    case True
    then show ?thesis using Cons.IH [of i] by simp
  next
    case False
    then show ?thesis using Cons.IH [of b] by simp
  qed
qed

lemma first_max_ge: "i \<in> set (b # rest) \<Longrightarrow> f i \<le> f (first_max f b rest)"
proof (induction rest arbitrary: b)
  case Nil
  then show ?case by simp
next
  case (Cons j rest)
  show ?case
  proof (cases "f b < f j")
    case True
    then show ?thesis
      using Cons.prems Cons.IH [of j] first_max_ge_start [of f j rest] by auto
  next
    case False
    then show ?thesis
      using Cons.prems Cons.IH [of b] first_max_ge_start [of f b rest] by auto
  qed
qed

lemma first_max_same_or_better:
  "first_max f b rest = b \<or> f b < f (first_max f b rest)"
proof (induction rest arbitrary: b)
  case Nil
  show ?case by simp
next
  case (Cons j rest)
  show ?case
  proof (cases "f b < f j")
    case True
    then show ?thesis using Cons.IH [of j] by auto
  next
    case False
    then show ?thesis using Cons.IH [of b] by simp
  qed
qed

lemma first_max_before_tail:
  assumes "i \<in> set (takeWhile (\<lambda>x. x \<noteq> first_max f b rest) rest)"
    and "first_max f b rest \<noteq> b"
  shows "f i < f (first_max f b rest)"
  using assms
proof (induction rest arbitrary: b)
  case Nil
  then show ?case by simp
next
  case (Cons j rest)
  show ?case
  proof (cases "f b < f j")
    case True
    let ?m = "first_max f j rest"
    from True have fm: "first_max f b (j # rest) = ?m" by simp
    from Cons.prems(1) have nj: "?m \<noteq> j"
      and i: "i = j \<or> i \<in> set (takeWhile (\<lambda>x. x \<noteq> ?m) rest)"
      unfolding fm by (auto split: if_splits)
    from nj have jm: "f j < f ?m" using first_max_same_or_better [of f j rest] by simp
    from i show ?thesis
    proof
      assume "i = j"
      then show ?thesis using jm unfolding fm by simp
    next
      assume "i \<in> set (takeWhile (\<lambda>x. x \<noteq> ?m) rest)"
      then show ?thesis unfolding fm using nj by (rule Cons.IH)
    qed
  next
    case False
    let ?m = "first_max f b rest"
    from False have fm: "first_max f b (j # rest) = ?m" by simp
    from Cons.prems(2) have nb: "?m \<noteq> b" unfolding fm .
    then have bm: "f b < f ?m" using first_max_same_or_better [of f b rest] by simp
    from Cons.prems(1) have i: "i = j \<or> i \<in> set (takeWhile (\<lambda>x. x \<noteq> ?m) rest)"
      unfolding fm by (auto split: if_splits)
    from i show ?thesis
    proof
      assume "i = j"
      then show ?thesis using bm False unfolding fm by simp
    next
      assume "i \<in> set (takeWhile (\<lambda>x. x \<noteq> ?m) rest)"
      then show ?thesis unfolding fm using nb by (rule Cons.IH)
    qed
  qed
qed

lemma first_max_before:
  assumes "i \<in> set (takeWhile (\<lambda>x. x \<noteq> first_max f b rest) (b # rest))"
  shows "f i < f (first_max f b rest)"
proof -
  let ?m = "first_max f b rest"
  from assms have nb: "?m \<noteq> b"
    and i: "i = b \<or> i \<in> set (takeWhile (\<lambda>x. x \<noteq> ?m) rest)"
    by (auto split: if_splits)
  from i show ?thesis
  proof
    assume "i = b"
    then show ?thesis using nb first_max_same_or_better [of f b rest] by simp
  next
    assume "i \<in> set (takeWhile (\<lambda>x. x \<noteq> ?m) rest)"
    then show ?thesis using nb by (rule first_max_before_tail)
  qed
qed

section \<open>Both loops compute the recursion\<close>

lemma picks_extends: "\<exists>ext. picks df tb m chosen rem = chosen @ ext"
proof (induction df tb m chosen rem rule: picks.induct)
  case (3 df tb m chosen r rs)
  let ?b = "first_max (candidate_score df tb chosen) r rs"
  from 3 [of ?b] obtain ext where
    "picks df tb m (chosen @ [?b]) (filter (\<lambda>i. i \<noteq> ?b) (r # rs)) = (chosen @ [?b]) @ ext"
    by blast
  then have "picks df tb (Suc m) chosen (r # rs) = chosen @ (?b # ext)"
    by (simp add: Let_def)
  then show ?case by blast
qed simp_all

lemma picks_length_ge: "length chosen \<le> length (picks df tb m chosen rem)"
  using picks_extends [of df tb m chosen rem] by auto

lemma final_best_step:
  assumes "length (chosen @ [b]) \<le> length res"
  shows "final_best df tb (chosen @ [b]) (Some (Num (candidate_score df tb chosen b))) res
       = final_best df tb chosen last_best res"
proof -
  from assms have "res \<noteq> chosen" by auto
  then show ?thesis by (auto simp: final_best_def candidate_score_def)
qed

lemma while_ui_picks:
  assumes "\<forall>i\<in>set chosen. i < length df" and "\<forall>i\<in>set rem. i < length df"
    and "m = nat (k - int (length chosen))"
  shows "while_ui df k tb chosen rem last_best =
           Inr (picks df tb m chosen rem,
                final_best df tb chosen last_best (picks df tb m chosen rem))"
  using assms
proof (induction m arbitrary: chosen rem last_best)
  case 0
  then have "\<not> int (length chosen) < k" by simp
  then show ?case by (subst while_ui.simps) (simp add: final_best_def)
next
  case (Suc m)
  then have lt: "int (length chosen) < k" by simp
  show ?case
  proof (cases rem)
    case Nil
    then show ?thesis by (subst while_ui.simps) (simp add: final_best_def)
  next
    case (Cons r rs)
    let ?f = "candidate_score df tb chosen"
    let ?b = "first_max ?f r rs"
    let ?rem' = "filter (\<lambda>i. i \<noteq> ?b) rem"
    have inr: "\<forall>i\<in>set (r # rs). i < length df" using Suc.prems(2) Cons by simp
    have f: "for_rows team_score_ui df tb chosen rem (None, NegInf) = Inr (Some ?b, Num (?f ?b))"
      unfolding team_score_ui_fun_eq Cons by (rule for_rows_start [OF Suc.prems(1) inr])
    have ne: "rem \<noteq> []" using Cons by simp
    have bin: "?b \<in> set rem" unfolding Cons by (rule first_max_in)
    then have d: "drop_label rem ?b = Inr ?rem'" by (simp add: drop_label_def)
    have c': "\<forall>i\<in>set (chosen @ [?b]). i < length df" using Suc.prems(1,2) bin by auto
    have r': "\<forall>i\<in>set ?rem'. i < length df" using Suc.prems(2) by simp
    have m': "m = nat (k - int (length (chosen @ [?b])))" using Suc.prems(3) by simp
    have p: "picks df tb (Suc m) chosen rem = picks df tb m (chosen @ [?b]) ?rem'"
      unfolding Cons by (simp add: Let_def)
    have "while_ui df k tb chosen rem last_best =
            while_ui df k tb (chosen @ [?b]) ?rem' (Some (Num (?f ?b)))"
      by (subst while_ui.simps) (simp add: lt ne f d)
    also have "\<dots> = Inr (picks df tb m (chosen @ [?b]) ?rem',
                final_best df tb (chosen @ [?b]) (Some (Num (?f ?b)))
                  (picks df tb m (chosen @ [?b]) ?rem'))"
      by (rule Suc.IH [OF c' r' m'])
    also have "\<dots> = Inr (picks df tb (Suc m) chosen rem,
                final_best df tb chosen last_best (picks df tb (Suc m) chosen rem))"
      unfolding p using final_best_step [OF picks_length_ge, where last_best = last_best]
    by simp
    finally show ?thesis .
  qed
qed

lemma filter_neq_length:
  "distinct xs \<Longrightarrow> b \<in> set xs \<Longrightarrow> Suc (length (filter (\<lambda>i. i \<noteq> b) xs)) = length xs"
proof (induction xs)
  case Nil
  then show ?case by simp
next
  case (Cons x xs)
  show ?case
  proof (cases "x = b")
    case True
    with Cons.prems have "b \<notin> set xs" by simp
    then have "filter (\<lambda>i. i \<noteq> b) xs = xs" by (auto simp: filter_id_conv)
    with True show ?thesis by simp
  next
    case False
    with Cons show ?thesis by simp
  qed
qed

lemma while_cli_picks:
  assumes "\<forall>i\<in>set chosen. i < length df" and "\<forall>i\<in>set rem. i < length df"
    and "distinct rem"
    and "m = nat (k - int (length chosen))" and "m \<le> length rem"
  shows "while_cli df k tb chosen rem last_best =
           Inr (picks df tb m chosen rem,
                final_best df tb chosen last_best (picks df tb m chosen rem))"
  using assms
proof (induction m arbitrary: chosen rem last_best)
  case 0
  then have "\<not> int (length chosen) < k" by simp
  then show ?case by (subst while_cli.simps) (simp add: final_best_def)
next
  case (Suc m)
  then have lt: "int (length chosen) < k" by simp
  from Suc.prems(5) obtain r rs where Cons: "rem = r # rs" by (cases rem) auto
  let ?f = "candidate_score df tb chosen"
  let ?b = "first_max ?f r rs"
  let ?rem' = "filter (\<lambda>i. i \<noteq> ?b) rem"
  have inr: "\<forall>i\<in>set (r # rs). i < length df" using Suc.prems(2) Cons by simp
  have f: "for_rows team_score df tb chosen rem (None, NegInf) = Inr (Some ?b, Num (?f ?b))"
    unfolding Cons by (rule for_rows_start [OF Suc.prems(1) inr])
  have bin: "?b \<in> set rem" unfolding Cons by (rule first_max_in)
  then have d: "drop_label rem ?b = Inr ?rem'" by (simp add: drop_label_def)
  have c': "\<forall>i\<in>set (chosen @ [?b]). i < length df" using Suc.prems(1,2) bin by auto
  have r': "\<forall>i\<in>set ?rem'. i < length df" using Suc.prems(2) by simp
  have d': "distinct ?rem'" using Suc.prems(3) by simp
  have m': "m = nat (k - int (length (chosen @ [?b])))" using Suc.prems(4) by simp
  have l': "m \<le> length ?rem'"
    using filter_neq_length [OF Suc.prems(3) bin] Suc.prems(5) by simp
  have p: "picks df tb (Suc m) chosen rem = picks df tb m (chosen @ [?b]) ?rem'"
    unfolding Cons by (simp add: Let_def)
  have "while_cli df k tb chosen rem last_best =
          while_cli df k tb (chosen @ [?b]) ?rem' (Some (Num (?f ?b)))"
    by (subst while_cli.simps) (simp add: lt f d)
  also have "\<dots> = Inr (picks df tb m (chosen @ [?b]) ?rem',
              final_best df tb (chosen @ [?b]) (Some (Num (?f ?b)))
                (picks df tb m (chosen @ [?b]) ?rem'))"
    by (rule Suc.IH [OF c' r' d' m' l'])
  also have "\<dots> = Inr (picks df tb (Suc m) chosen rem,
              final_best df tb chosen last_best (picks df tb (Suc m) chosen rem))"
    unfolding p using final_best_step [OF picks_length_ge, where last_best = last_best]
    by simp
  finally show ?case .
qed

lemma while_cli_raises:
  assumes "\<forall>i\<in>set chosen. i < length df" and "\<forall>i\<in>set rem. i < length df"
    and "distinct rem"
    and "int (length chosen) + int (length rem) < k"
    and "n = length rem"
  shows "while_cli df k tb chosen rem last_best = Inl ValueError"
  using assms
proof (induction n arbitrary: chosen rem last_best)
  case 0
  then have "rem = []" and "int (length chosen) < k" by simp_all
  then show ?case by (subst while_cli.simps) simp
next
  case (Suc n)
  then have lt: "int (length chosen) < k" by simp
  from Suc.prems(5) obtain r rs where Cons: "rem = r # rs" by (cases rem) auto
  let ?f = "candidate_score df tb chosen"
  let ?b = "first_max ?f r rs"
  let ?rem' = "filter (\<lambda>i. i \<noteq> ?b) rem"
  have inr: "\<forall>i\<in>set (r # rs). i < length df" using Suc.prems(2) Cons by simp
  have f: "for_rows team_score df tb chosen rem (None, NegInf) = Inr (Some ?b, Num (?f ?b))"
    unfolding Cons by (rule for_rows_start [OF Suc.prems(1) inr])
  have bin: "?b \<in> set rem" unfolding Cons by (rule first_max_in)
  then have d: "drop_label rem ?b = Inr ?rem'" by (simp add: drop_label_def)
  have c': "\<forall>i\<in>set (chosen @ [?b]). i < length df" using Suc.prems(1,2) bin by auto
  have r': "\<forall>i\<in>set ?rem'. i < length df" using Suc.prems(2) by simp
  have d': "distinct ?rem'" using Suc.prems(3) by simp
  have len: "Suc (length ?rem') = length rem" by (rule filter_neq_length [OF Suc.prems(3) bin])
  have n': "n = length ?rem'" using len Suc.prems(5) by simp
  have k': "int (length (chosen @ [?b])) + int (length ?rem') < k"
    using len Suc.prems(4) by simp
  have "while_cli df k tb chosen rem last_best =
          while_cli df k tb (chosen @ [?b]) ?rem' (Some (Num (?f ?b)))"
    by (subst while_cli.simps) (simp add: lt f d)
  also have "\<dots> = Inl ValueError"
    by (rule Suc.IH [OF c' r' d' k' n'])
  finally show ?case .
qed

lemma picks_length:
  "distinct rem \<Longrightarrow> length (picks df tb m chosen rem) = length chosen + min m (length rem)"
proof (induction df tb m chosen rem rule: picks.induct)
  case (3 df tb m chosen r rs)
  let ?b = "first_max (candidate_score df tb chosen) r rs"
  let ?rem' = "filter (\<lambda>i. i \<noteq> ?b) (r # rs)"
  have bin: "?b \<in> set (r # rs)" by (rule first_max_in)
  have len: "Suc (length ?rem') = length (r # rs)" by (rule filter_neq_length [OF "3.prems" bin])
  have "distinct ?rem'" using "3.prems" by (rule distinct_filter)
  then have "length (picks df tb m (chosen @ [?b]) ?rem') = length (chosen @ [?b]) + min m (length ?rem')"
    by (rule "3.IH" [OF refl])
  moreover have "picks df tb (Suc m) chosen (r # rs) = picks df tb m (chosen @ [?b]) ?rem'"
    by (simp add: Let_def)
  ultimately show ?case using len by simp
qed simp_all

lemma picks_in_range:
  assumes "\<forall>i\<in>set chosen. i < n" and "\<forall>i\<in>set rem. i < n"
  shows "\<forall>i\<in>set (picks df tb m chosen rem). i < n"
  using assms
proof (induction df tb m chosen rem rule: picks.induct)
  case (3 df tb m chosen r rs)
  let ?b = "first_max (candidate_score df tb chosen) r rs"
  let ?rem' = "filter (\<lambda>i. i \<noteq> ?b) (r # rs)"
  have bin: "?b \<in> set (r # rs)" by (rule first_max_in)
  have c': "\<forall>i\<in>set (chosen @ [?b]). i < n" using "3.prems" bin by auto
  have r': "\<forall>i\<in>set ?rem'. i < n" using "3.prems"(2) by simp
  have "\<forall>i\<in>set (picks df tb m (chosen @ [?b]) ?rem'). i < n"
    by (rule "3.IH" [OF refl c' r'])
  then show ?case by (simp add: Let_def)
qed simp_all

lemma first_max_first_best: "first_best f (r # rs) (first_max f r rs)"
  unfolding first_best_def
  using first_max_in [of f r rs] first_max_ge [of _ r rs f] first_max_before [of _ f r rs]
  by blast

lemma select_ui_picks:
  "select_ui df k tb =
     Inr (picks df tb (nat k) [] [0..<length df],
          final_best df tb [] None (picks df tb (nat k) [] [0..<length df]))"
  unfolding select_ui_def by (rule while_ui_picks) simp_all

lemma select_cli_picks:
  assumes "k \<le> int (length df)"
  shows "select_cli df k tb =
     Inr (picks df tb (nat k) [] [0..<length df],
          final_best df tb [] None (picks df tb (nat k) [] [0..<length df]))"
  unfolding select_cli_def using assms by (intro while_cli_picks) simp_all

lemma select_cli_raises:
  assumes "int (length df) < k"
  shows "select_cli df k tb = Inl ValueError"
  unfolding select_cli_def using assms by (intro while_cli_raises [where n = "length df"]) simp_all

lemma greedy_team_raises:
  "int (length df) < k \<Longrightarrow> greedy_team df k tb = Inl ValueError"
  by (simp add: greedy_team_def select_cli_raises)

lemma picks_start_in_range: "\<forall>i\<in>set (picks df tb m [] [0..<length df]). i < length df"
  by (rule picks_in_range) simp_all

lemma picks_start_length: "length (picks df tb m [] [0..<length df]) = min m (length df)"
  by (simp add: picks_length)

lemma greedy_team_ui_picks:
  "greedy_team_ui df k tb = Inr (map (nth df) (picks df tb (nat k) [] [0..<length df]))"
  by (simp add: greedy_team_ui_def select_ui_picks loc_in_range [OF picks_start_in_range])

lemma greedy_team_picks:
  "k \<le> int (length df) \<Longrightarrow>
   greedy_team df k tb = Inr (map (nth df) (picks df tb (nat k) [] [0..<length df]))"
  by (simp add: greedy_team_def select_cli_picks loc_in_range [OF picks_start_in_range])

lemma greedy_team_ui_length:
  "\<exists>team. greedy_team_ui df k tb = Inr team \<and> length team = min (nat k) (length df)"
  by (simp add: greedy_team_ui_picks picks_start_length)

lemma greedy_team_length:
  "k \<le> int (length df) \<Longrightarrow>
   \<exists>team. greedy_team df k tb = Inr team \<and> length team = min (nat k) (length df)"
  by (simp add: greedy_team_picks picks_start_length)




section \<open>Selection without a type bonus\<close>

lemma candidate_score_no_bonus:
  "candidate_score df 0 chosen i = sum_list (map Total (map (nth df) chosen)) + Total (df ! i)"
  by (simp add: candidate_score_def team_score_def)

lemma before_in_sorted:
  "sorted_wrt (<) xs \<Longrightarrow> b \<in> set xs \<Longrightarrow> i \<in> set xs \<Longrightarrow> i < b \<Longrightarrow>
     i \<in> set (takeWhile (\<lambda>x. x \<noteq> b) xs)"
  for b i :: nat
  by (induction xs) auto

lemma first_best_key_least:
  assumes fb: "first_best (candidate_score df 0 chosen) rem b"
    and srt: "sorted_wrt (<) rem" and i: "i \<in> set rem"
  shows "fitness_key df b \<le> fitness_key df i"
proof -
  from fb have bin: "b \<in> set rem"
    and ge: "candidate_score df 0 chosen i \<le> candidate_score df 0 chosen b"
    and before: "i \<in> set (takeWhile (\<lambda>x. x \<noteq> b) rem) \<Longrightarrow>
                   candidate_score df 0 chosen i < candidate_score df 0 chosen b"
    using i by (auto simp: first_best_def)
  from ge have t: "Total (df ! i) \<le> Total (df ! b)" by (simp add: candidate_score_no_bonus)
  show ?thesis
  proof (cases "Total (df ! i) < Total (df ! b)")
    case True
    then show ?thesis by (simp add: fitness_key_def)
  next
    case False
    with t have eq: "Total (df ! i) = Total (df ! b)" by simp
    have "\<not> i < b"
    proof
      assume "i < b"
      then have "i \<in> set (takeWhile (\<lambda>x. x \<noteq> b) rem)"
        by (rule before_in_sorted [OF srt bin i])
      then have "candidate_score df 0 chosen i < candidate_score df 0 chosen b" by (rule before)
      then show False using eq by (simp add: candidate_score_no_bonus)
    qed
    then show ?thesis using eq by (simp add: fitness_key_def)
  qed
qed

lemma inj_fitness_key: "inj_on (fitness_key df) A"
  by (rule inj_onI) (simp add: fitness_key_def)

lemma sort_key_least_first:
  assumes d: "distinct rem" and bin: "b \<in> set rem"
    and least: "\<forall>i\<in>set rem. fitness_key df b \<le> fitness_key df i"
  shows "sort_key (fitness_key df) rem =
           b # sort_key (fitness_key df) (filter (\<lambda>i. i \<noteq> b) rem)"
proof (rule sort_key_inj_key_eq)
  have "mset rem = add_mset b (mset (filter (\<lambda>i. i \<noteq> b) rem))"
    using d bin
  proof (induction rem)
    case Nil
    then show ?case by simp
  next
    case (Cons x xs)
    show ?case
    proof (cases "x = b")
      case True
      with Cons.prems have "b \<notin> set xs" by simp
      then have "filter (\<lambda>i. i \<noteq> b) xs = xs" by (auto simp: filter_id_conv)
      with True show ?thesis by simp
    next
      case False
      with Cons show ?thesis by simp
    qed
  qed
  then show "mset rem = mset (b # sort_key (fitness_key df) (filter (\<lambda>i. i \<noteq> b) rem))"
    by simp
  show "inj_on (fitness_key df) (set rem)" by (rule inj_fitness_key)
  show "sorted (map (fitness_key df) (b # sort_key (fitness_key df) (filter (\<lambda>i. i \<noteq> b) rem)))"
    using least by simp
qed

lemma picks_no_bonus:
  assumes "sorted_wrt (<) rem"
  shows "picks df 0 m chosen rem = chosen @ take m (sort_key (fitness_key df) rem)"
  using assms
proof (induction m arbitrary: chosen rem)
  case 0
  then show ?case by simp
next
  case (Suc m)
  show ?case
  proof (cases rem)
    case Nil
    then show ?thesis by simp
  next
    case (Cons r rs)
    let ?b = "first_max (candidate_score df 0 chosen) r rs"
    let ?rem' = "filter (\<lambda>i. i \<noteq> ?b) rem"
    have fb: "first_best (candidate_score df 0 chosen) rem ?b"
      unfolding Cons by (rule first_max_first_best)
    have bin: "?b \<in> set rem" unfolding Cons by (rule first_max_in)
    have d: "distinct rem" using Suc.prems by (simp add: strict_sorted_iff)
    have least: "\<forall>i\<in>set rem. fitness_key df ?b \<le> fitness_key df i"
      using first_best_key_least [OF fb Suc.prems] by blast
    have s: "sort_key (fitness_key df) rem = ?b # sort_key (fitness_key df) ?rem'"
      by (rule sort_key_least_first [OF d bin least])
    have srt': "sorted_wrt (<) ?rem'" using Suc.prems by (rule sorted_wrt_filter)
    have "picks df 0 (Suc m) chosen rem = picks df 0 m (chosen @ [?b]) ?rem'"
      unfolding Cons by (simp add: Let_def)
    also have "\<dots> = (chosen @ [?b]) @ take m (sort_key (fitness_key df) ?rem')"
      by (rule Suc.IH [OF srt'])
    also have "\<dots> = chosen @ take (Suc m) (sort_key (fitness_key df) rem)"
      unfolding s by simp
    finally show ?thesis .
  qed
qed

lemma select_ui_no_bonus:
  "\<exists>last_best. select_ui df k 0 = Inr (top_by_fitness df (nat k), last_best)"
  by (simp add: select_ui_picks picks_no_bonus top_by_fitness_def)

lemma greedy_team_ui_no_bonus:
  "greedy_team_ui df k 0 = Inr (map (nth df) (top_by_fitness df (nat k)))"
  by (simp add: greedy_team_ui_picks picks_no_bonus top_by_fitness_def)

lemma greedy_team_no_bonus:
  "k \<le> int (length df) \<Longrightarrow> greedy_team df k 0 = Inr (map (nth df) (top_by_fitness df (nat k)))"
  by (simp add: greedy_team_picks picks_no_bonus top_by_fitness_def)

lemma length_top_by_fitness: "length (top_by_fitness df m) = min m (length df)"
  by (simp add: top_by_fitness_def)

section \<open>Claims\<close>

text \<open>
  C1 (size contract). The claim: for every pool and every integer \<open>k\<close> the selector returns
  a Team of length \<open>min(k, |pool|)\<close> when \<open>k \<ge> 0\<close> and an empty Team when \<open>k \<le> 0\<close>. The
  selector of poke\_ui.py does so (\<open>greedy_team_ui_length\<close>); the selector of poke.py does
  so only up to \<open>k = |pool|\<close> (\<open>greedy_team_length\<close>) and raises beyond
  (\<open>greedy_team_raises\<close>). On a pool of one Entity with \<open>k = 2\<close>, poke.py raises ValueError
  where poke\_ui.py returns the one Entity.
\<close>

theorem greedy_team_size_contract_broken:
  "greedy_team [pool_A] 2 20 = Inl ValueError
   \<and> greedy_team_ui [pool_A] 2 20 = Inr [pool_A]"
  by code_simp

text \<open>
  C2 (no error on small pools). The claim: the selector raises no error; on an empty pool it
  returns an empty Team, and when \<open>k\<close> exceeds the pool size it returns the whole pool. On
  the empty pool with the default team size 6, and on the three-Entity pool with \<open>k = 10\<close>,
  poke.py raises ValueError where poke\_ui.py returns the empty Team and the whole pool.
\<close>

theorem greedy_team_small_pool_raises:
  "greedy_team [] 6 20 = Inl ValueError
   \<and> greedy_team_ui [] 6 20 = Inr []
   \<and> greedy_team [pool_A, pool_B, pool_C] 10 20 = Inl ValueError
   \<and> greedy_team_ui [pool_A, pool_B, pool_C] 10 20 = Inr [pool_C, pool_A, pool_B]"
  by code_simp


text \<open>
  C4 (concrete scenario). On the pool A (300, Fire), B (250, Water), C (400, Fire and
  Flying) with \<open>k = 2\<close> and \<open>type_bonus = 20\<close>, both selectors return the ordered Team
  [C, A], and its score is 740.
\<close>

theorem concrete_scenario:
  "greedy_team [pool_A, pool_B, pool_C] 2 20 = Inr [pool_C, pool_A]
   \<and> greedy_team_ui [pool_A, pool_B, pool_C] 2 20 = Inr [pool_C, pool_A]
   \<and> team_score [pool_C, pool_A] 20 = 740
   \<and> team_score_ui [pool_C, pool_A] 20 = 740"
  by code_simp





text \<open>
  C7 (order independence). Two lists holding the same multiset of Entities have the same
  score, for every \<open>type_bonus\<close> and for the scorer of either file.
\<close>

theorem team_score_order_independent:
  assumes "mset xs = mset ys"
  shows "team_score xs type_bonus = team_score ys type_bonus
       \<and> team_score_ui xs type_bonus = team_score_ui ys type_bonus"
proof -
  have s: "set xs = set ys" using assms by (rule mset_eq_setD)
  have "mset (map Total xs) = mset (map Total ys)" using assms by simp
  then have "sum_mset (mset (map Total xs)) = sum_mset (mset (map Total ys))"
    by (rule arg_cong)
  then have "sum_list (map Total xs) = sum_list (map Total ys)"
    by (simp only: sum_mset_sum_list)
  moreover have "unique_categories xs = unique_categories ys"
    using s by (simp add: unique_categories_def)
  ultimately show ?thesis by (simp add: team_score_ui_eq team_score_spec)
qed

theorem team_score_order_independent_witness:
  "mset [pool_C, pool_A] = mset [pool_A, pool_C]
   \<and> team_score [pool_C, pool_A] 20 = team_score [pool_A, pool_C] 20
   \<and> team_score [pool_A, pool_C] 20 = 740"
proof -
  have h: "mset [pool_C, pool_A] = mset [pool_A, pool_C]" by (simp add: add_mset_commute)
  have v: "team_score [pool_A, pool_C] 20 = 740" by code_simp
  from team_score_order_independent [OF h, of 20] h v show ?thesis by simp
qed



text \<open>
  C9 (no type bonus). The claim: with \<open>type_bonus = 0\<close> and every \<open>k\<close>, the selector returns
  the top \<open>min(k, |pool|)\<close> Entities by descending fitness, ties by first position. The
  selector of poke\_ui.py does so for every \<open>k\<close> (\<open>greedy_team_ui_no_bonus\<close>) and the one of
  poke.py for \<open>k\<close> up to the pool size (\<open>greedy_team_no_bonus\<close>). On the pool [A, B] with
  \<open>k = 3\<close>, poke.py raises ValueError where poke\_ui.py returns [A, B].
\<close>

theorem greedy_team_no_bonus_small_pool_raises:
  "greedy_team [pool_A, pool_B] 3 0 = Inl ValueError
   \<and> greedy_team_ui [pool_A, pool_B] 3 0 = Inr [pool_A, pool_B]
   \<and> map (nth [pool_A, pool_B]) (top_by_fitness [pool_A, pool_B] (nat 3)) = [pool_A, pool_B]"
  by code_simp

text \<open>
  C10 (the two files agree). For every pool, every \<open>type_bonus\<close> and every \<open>k\<close> that is at
  most the pool size, the selectors of poke.py and poke\_ui.py return the same labels in
  the same order, hence the same Team, and neither raises.
\<close>

theorem greedy_team_cli_ui_agree:
  assumes "0 \<le> k" and "k \<le> int (length df)"
  shows "greedy_team df k type_bonus = greedy_team_ui df k type_bonus
       \<and> select_cli df k type_bonus = select_ui df k type_bonus
       \<and> (\<exists>team. greedy_team_ui df k type_bonus = Inr team)"
  using assms(2)
  by (simp add: greedy_team_picks greedy_team_ui_picks select_cli_picks select_ui_picks)

theorem greedy_team_cli_ui_agree_witness:
  "(0::int) \<le> 2 \<and> (2::int) \<le> int (length [pool_A, pool_B, pool_C])
   \<and> greedy_team [pool_A, pool_B, pool_C] 2 20 = greedy_team_ui [pool_A, pool_B, pool_C] 2 20
   \<and> greedy_team_ui [pool_A, pool_B, pool_C] 2 20 = Inr [pool_C, pool_A]"
proof -
  have h1: "(0::int) \<le> 2" by simp
  have h2: "(2::int) \<le> int (length [pool_A, pool_B, pool_C])" by simp
  have v: "greedy_team_ui [pool_A, pool_B, pool_C] 2 20 = Inr [pool_C, pool_A]" by code_simp
  from greedy_team_cli_ui_agree [OF h1 h2, of 20] v show ?thesis by simp
qed

end
